theory Spec2Isabelle
  imports Complex_Main "HOL-Library.Word"
begin

section \<open>Data model\<close>

text \<open>
  Pointers and \<open>size_t\<close> are 64-bit words; the null pointer is the word 0.  The
  payload record of \<open>types.h\<close> carries a symbol, a price and a volume.  The price
  is a \<open>double\<close> in the source; the pool and the queue only copy it, so it is kept
  as the number the literal denotes.  The padding bytes are never read and are
  left out.
\<close>

type_synonym addr = "64 word"
type_synonym size_t = "64 word"

definition nullptr :: addr where
  "nullptr = 0"

definition sizeof_MarketData :: size_t where
  "sizeof_MarketData = 64"

record MarketData =
  symbol :: string
  price :: real
  volume :: "32 word"

text \<open>
  C++ exceptions are values of \<open>exn\<close>: objects of \<open>std::bad_alloc\<close>,
  \<open>std::length_error\<close>, \<open>std::runtime_error\<close> and \<open>std::system_error\<close>, all of them
  derived from \<open>std::exception\<close>.  A \<open>fault\<close> is undefined behaviour, which no
  handler catches: an integer division by zero, an index outside a vector, an
  access through the null pointer, and an access to an object of type
  \<open>MarketData\<close> in storage where no such object was constructed.
\<close>

datatype exn = Bad_alloc | Length_error string | Runtime_error string | System_error int string

datatype fault = Division_by_zero | Out_of_bounds | Null_dereference | Unconstructed_object

section \<open>The memory pool (memory\_pool.h)\<close>

text \<open>
  The fields \<open>storage_\<close>, \<open>free_list_\<close> and \<open>size_\<close> of the class; a field name
  cannot end in an underscore here.
\<close>

record MemoryPool =
  pool_storage :: addr
  free_list :: "addr list"
  pool_size :: size_t

text \<open>
  The address that the constructor pushes for slot \<open>i\<close>:
  \<open>storage_ + i * sizeof(MarketData)\<close>.
\<close>

definition slot_addr :: "addr \<Rightarrow> nat \<Rightarrow> addr" where
  "slot_addr storage i = storage + of_nat i * sizeof_MarketData"

text \<open>
  The constructor.  Its first argument is the address that the aligned
  \<open>new\<close> expression yields; the null address stands for a failed allocation.
  The free list is a vector: its back is the last element of the list.  The
  slot addresses are computed in 64-bit arithmetic; that the block of
  \<open>size * sizeof(MarketData)\<close> bytes lies inside the address space is a
  hypothesis of the theorems that need it.
\<close>

definition MemoryPool_ctor :: "addr \<Rightarrow> size_t \<Rightarrow> exn + MemoryPool" where
  "MemoryPool_ctor storage sz =
     (if storage = nullptr then Inl Bad_alloc
      else Inr \<lparr>pool_storage = storage,
                free_list = map (slot_addr storage) [0..<unat sz],
                pool_size = sz\<rparr>)"

definition allocate :: "MemoryPool \<Rightarrow> addr \<times> MemoryPool" where
  "allocate p =
     (if free_list p = [] then (nullptr, p)
      else (last (free_list p), p\<lparr>free_list := butlast (free_list p)\<rparr>))"

definition deallocate :: "addr \<Rightarrow> MemoryPool \<Rightarrow> MemoryPool" where
  "deallocate ptr p =
     (if ptr \<noteq> nullptr then p\<lparr>free_list := free_list p @ [ptr]\<rparr> else p)"

subsection \<open>Clients of the pool\<close>

text \<open>
  A client issues a sequence of calls.  Next to the pool the run keeps the list
  of results of \<open>allocate\<close> that the clients hold and have not given back; a null
  result is not a slot and is not recorded.
\<close>

datatype pool_call = Allocate | Deallocate addr

fun pool_step :: "pool_call \<Rightarrow> MemoryPool \<times> addr list \<Rightarrow> MemoryPool \<times> addr list" where
  "pool_step Allocate (p, held) =
     (let (ptr, p') = allocate p
      in (p', if ptr = nullptr then held else held @ [ptr]))"
| "pool_step (Deallocate ptr) (p, held) = (deallocate ptr p, remove1 ptr held)"

fun pool_run :: "pool_call list \<Rightarrow> MemoryPool \<times> addr list \<Rightarrow> MemoryPool \<times> addr list" where
  "pool_run [] s = s"
| "pool_run (c # cs) s = pool_run cs (pool_step c s)"

text \<open>
  The calling discipline: a deallocated pointer is null (a no-op) or a slot that
  is held at that moment, so it was allocated before and is not given back
  twice.
\<close>

fun disciplined :: "pool_call list \<Rightarrow> MemoryPool \<times> addr list \<Rightarrow> bool" where
  "disciplined [] s = True"
| "disciplined (Allocate # cs) s = disciplined cs (pool_step Allocate s)"
| "disciplined (Deallocate ptr # cs) s =
     ((ptr = nullptr \<or> ptr \<in> set (snd s)) \<and> disciplined cs (pool_step (Deallocate ptr) s))"

text \<open>The state between calls: free slots are distinct and none is null.\<close>

definition pool_wf :: "MemoryPool \<Rightarrow> bool" where
  "pool_wf p \<longleftrightarrow> distinct (free_list p) \<and> nullptr \<notin> set (free_list p)"

text \<open>Invariant of a run: free and held slots together are the set \<open>S\<close>, each once.\<close>

definition pool_inv :: "addr set \<Rightarrow> MemoryPool \<times> addr list \<Rightarrow> bool" where
  "pool_inv S s \<longleftrightarrow>
     distinct (free_list (fst s) @ snd s) \<and> set (free_list (fst s) @ snd s) = S"

section \<open>The queue (lock\_free\_queue.h)\<close>

record LockFreeQueue =
  buffer :: "addr list"
  head :: size_t
  tail :: size_t
  capacity :: size_t

text \<open>
  The queue's slots live in the pool's storage; a channel is the queue object
  together with that memory.  The pool obtains its storage as an array of
  bytes (\<open>new uint8_t[...]\<close>) and hands out addresses inside it; neither the pool
  nor the queue constructs a \<open>MarketData\<close> object, with its \<open>std::string\<close>
  member, there.  The memory therefore maps an address to \<open>None\<close> as long as
  the bytes at it are raw, and to the payload of the object that lives there
  otherwise.
\<close>

type_synonym memory = "addr \<Rightarrow> MarketData option"
type_synonym channel = "LockFreeQueue \<times> memory"

text \<open>All slots of a list hold a constructed object.\<close>

definition constructed :: "memory \<Rightarrow> addr list \<Rightarrow> bool" where
  "constructed mem slots \<longleftrightarrow> list_all (\<lambda>a. mem a \<noteq> None) slots"

text \<open>
  The member initialiser \<open>buffer(capacity)\<close> runs before the body of the
  constructor.  A vector of pointers holds at most \<open>2^60 - 1\<close> elements on the
  64-bit target; above that its constructor throws \<open>std::length_error\<close>.
  Otherwise it requests the storage of its elements, unless there are none; the
  first argument tells whether the request is granted, and \<open>std::bad_alloc\<close> is
  thrown when it is not.  The elements start as null pointers.
\<close>

definition vector_max_size :: nat where
  "vector_max_size = 2 ^ 60 - 1"

definition vector_ctor :: "bool \<Rightarrow> size_t \<Rightarrow> exn + addr list" where
  "vector_ctor granted n =
     (if vector_max_size < unat n
      then Inl (Length_error ''cannot create std::vector larger than max_size()'')
      else if n = 0 \<or> granted then Inr (replicate (unat n) nullptr)
      else Inl Bad_alloc)"

text \<open>
  The loop of the constructor, from index \<open>i\<close>.  The pool is passed by reference:
  the result carries the pool as the loop leaves it, also when it throws.
\<close>

function ctor_loop ::
  "size_t \<Rightarrow> size_t \<Rightarrow> addr list \<Rightarrow> MemoryPool \<Rightarrow> (exn + addr list) \<times> MemoryPool" where
  "ctor_loop i cap buf pool =
     (if i < cap then
        (case allocate pool of (ptr, pool') \<Rightarrow>
           if ptr = nullptr then (Inl (Runtime_error ''Memory pool exhausted''), pool')
           else ctor_loop (i + 1) cap (buf[unat i := ptr]) pool')
      else (Inr buf, pool))"
  by pat_completeness auto
termination
proof (relation "measure (\<lambda>(i, cap, buf, pool). unat cap - unat i)")
  show "wf (measure (\<lambda>(i, cap, buf, pool). unat cap - unat i))"
    by simp
next
  fix i cap :: size_t and buf :: "addr list" and pool x2 :: MemoryPool and x :: addr
  assume less: "i < cap"
  then have "unat i < unat cap"
    by (simp add: word_less_nat_alt)
  moreover have "unat cap < 2 ^ 64"
    using unsigned_less [of cap, where ?'a = nat] by simp
  ultimately have "unat i + 1 < 2 ^ 64"
    by simp
  then have "unat (i + 1) = unat i + 1"
    by (simp add: unat_word_ariths take_bit_nat_eq_self_iff)
  with \<open>unat i < unat cap\<close> show "((i + 1, cap, buf[unat i := x], x2), (i, cap, buf, pool))
      \<in> measure (\<lambda>(i, cap, buf, pool). unat cap - unat i)"
    by simp
qed

text \<open>
  The constructor: the vector first, then the loop.  When the vector cannot be
  built the exception leaves before the loop has run, with the pool as it was.
\<close>

definition LockFreeQueue_ctor ::
  "bool \<Rightarrow> size_t \<Rightarrow> MemoryPool \<Rightarrow> (exn + LockFreeQueue) \<times> MemoryPool" where
  "LockFreeQueue_ctor granted cap pool =
     (case vector_ctor granted cap of
        Inl e \<Rightarrow> (Inl e, pool)
      | Inr buf0 \<Rightarrow>
          (case ctor_loop 0 cap buf0 pool of
             (Inl e, pool') \<Rightarrow> (Inl e, pool')
           | (Inr buf, pool') \<Rightarrow>
               (Inr \<lparr>buffer = buf, head = 0, tail = 0, capacity = cap\<rparr>, pool')))"

text \<open>
  \<open>push\<close> and \<open>pop\<close>.  The remainder by a capacity of zero, an index outside
  the buffer, a null slot pointer and a slot in which no object was constructed
  are undefined behaviour in the source; here each is a fault, at the place
  where the source computes the remainder, indexes the vector, dereferences the
  pointer or copy-assigns the record.  The assignment \<open>*buffer[current_tail] = item\<close>
  calls the copy assignment of \<open>MarketData\<close>, hence of its \<open>std::string\<close> member,
  on the object at the slot; it needs an object there.
\<close>

definition push :: "MarketData \<Rightarrow> channel \<Rightarrow> fault + (bool \<times> channel)" where
  "push item ch =
     (case ch of (q, mem) \<Rightarrow>
        let current_tail = tail q in
        if capacity q = 0 then Inl Division_by_zero
        else
          let next_tail = (current_tail + 1) mod capacity q in
          if next_tail = head q then Inr (False, ch)
          else if \<not> unat current_tail < length (buffer q) then Inl Out_of_bounds
          else if buffer q ! unat current_tail = nullptr then Inl Null_dereference
          else if mem (buffer q ! unat current_tail) = None then Inl Unconstructed_object
          else Inr (True, (q\<lparr>tail := next_tail\<rparr>,
                           mem(buffer q ! unat current_tail := Some item))))"

text \<open>
  \<open>pop\<close> takes the value its reference parameter has before the call and returns
  the value it has after the call.
\<close>

definition pop :: "MarketData \<Rightarrow> channel \<Rightarrow> fault + (bool \<times> MarketData \<times> channel)" where
  "pop item ch =
     (case ch of (q, mem) \<Rightarrow>
        let current_head = head q in
        if current_head = tail q then Inr (False, item, ch)
        else if \<not> unat current_head < length (buffer q) then Inl Out_of_bounds
        else if buffer q ! unat current_head = nullptr then Inl Null_dereference
        else
          (case mem (buffer q ! unat current_head) of
             None \<Rightarrow> Inl Unconstructed_object
           | Some stored \<Rightarrow>
               if capacity q = 0 then Inl Division_by_zero
               else Inr (True, stored, (q\<lparr>head := (current_head + 1) mod capacity q\<rparr>, mem))))"

subsection \<open>Callers of the queue\<close>

text \<open>A producer that pushes a list of items, one call each, and keeps the results.\<close>

fun push_all :: "MarketData list \<Rightarrow> channel \<Rightarrow> fault + (bool list \<times> channel)" where
  "push_all [] ch = Inr ([], ch)"
| "push_all (x # xs) ch =
     (case push x ch of
        Inl f \<Rightarrow> Inl f
      | Inr (ok, ch') \<Rightarrow>
          (case push_all xs ch' of
             Inl f \<Rightarrow> Inl f
           | Inr (oks, ch'') \<Rightarrow> Inr (ok # oks, ch'')))"




subsection \<open>What a queue holds\<close>

text \<open>
  The state the constructor establishes and the operations keep, the number of
  items between \<open>head\<close> and \<open>tail\<close>, and the contents of their slots, oldest
  first.
\<close>

definition queue_wf :: "LockFreeQueue \<Rightarrow> bool" where
  "queue_wf q \<longleftrightarrow>
     length (buffer q) = unat (capacity q) \<and> head q < capacity q \<and> tail q < capacity q
     \<and> distinct (buffer q) \<and> nullptr \<notin> set (buffer q)"

definition q_count :: "LockFreeQueue \<Rightarrow> nat" where
  "q_count q = (unat (tail q) + unat (capacity q) - unat (head q)) mod unat (capacity q)"

definition q_items :: "channel \<Rightarrow> MarketData option list" where
  "q_items ch =
     (case ch of (q, mem) \<Rightarrow>
        map (\<lambda>k. mem (buffer q ! ((unat (head q) + k) mod unat (capacity q)))) [0..<q_count q])"


section \<open>The pipeline controller (market\_data.cpp)\<close>

text \<open>
  What a loop does to the outside is recorded as a list of events: the lines it
  hands to the logger and, for the consumer, what it does after a failed poll.
  A line that is built from numbers or from a record is kept as its parts; the
  formatting of numbers and the measured time of the closing line are left out.
  After a failed poll the consumer polls again at once (\<open>Busy_spin\<close>), yields
  the processor, or sleeps for a number of microseconds.
\<close>

datatype action = Busy_spin | Yield | Sleep "64 word"

datatype event =
    Log string bool
  | Log_count string size_t bool
  | Log_what string exn bool
  | Log_processed MarketData
  | Log_batch int
  | Log_retry string
  | Log_pushed MarketData
  | Log_batch_done size_t size_t
  | Backoff action


fun backoffs :: "event list \<Rightarrow> action list" where
  "backoffs [] = []"
| "backoffs (Backoff a # es) = a # backoffs es"
| "backoffs (e # es) = backoffs es"

subsection \<open>Thread affinity (thread\_affinity.cpp)\<close>



subsection \<open>The state of the controller\<close>


subsection \<open>The consumer loop\<close>

text \<open>The local counters of \<open>processData\<close>.\<close>

record locals =
  processed_count :: size_t
  empty_count :: size_t
  yield_count :: size_t
  sleep_count :: size_t

definition fresh_locals :: locals where
  "fresh_locals = \<lparr>processed_count = 0, empty_count = 0, yield_count = 0, sleep_count = 0\<rparr>"

text \<open>The branch of the loop body after a successful \<open>pop\<close>.\<close>

definition on_item :: "MarketData \<Rightarrow> locals \<Rightarrow> event list \<times> locals" where
  "on_item data l =
     ([Log_processed data],
      l\<lparr>processed_count := processed_count l + 1,
        empty_count := 0, yield_count := 0, sleep_count := 0\<rparr>)"

text \<open>The branch after a failed \<open>pop\<close>: the backoff ladder.\<close>

definition on_empty :: "locals \<Rightarrow> event list \<times> locals" where
  "on_empty l =
     (let l1 = l\<lparr>empty_count := empty_count l + 1\<rparr> in
      if empty_count l1 < 10000 then ([Backoff Busy_spin], l1)
      else if empty_count l1 < 100000 then ([Backoff Yield], l1)
      else
        let l2 = l1\<lparr>yield_count := yield_count l1 + 1\<rparr>;
            sleep_us = min (push_bit (unat (sleep_count l2)) 10) 100;
            l3 = (if sleep_count l2 < 4 then l2\<lparr>sleep_count := sleep_count l2 + 1\<rparr> else l2)
        in ((if yield_count l2 mod 1000 = 0 then [Log ''Queue empty, yielding'' False] else [])
              @ [Backoff (Sleep sleep_us)],
            l3\<lparr>empty_count := 10000\<rparr>))"

text \<open>
  The loop \<open>while (running)\<close>.  The flag is written by other threads; the list
  holds the values that the successive reads of the flag return, and after the
  list the flag reads false.  The variable \<open>data\<close> is declared inside the loop,
  so every iteration starts from the same fresh value \<open>data0\<close>.
\<close>

fun gated_loop ::
  "bool list \<Rightarrow> MarketData \<Rightarrow> locals \<times> channel \<times> event list
     \<Rightarrow> fault + (locals \<times> channel \<times> event list)" where
  "gated_loop [] data0 s = Inr s"
| "gated_loop (r # rs) data0 (l, ch, tr) =
     (if \<not> r then Inr (l, ch, tr)
      else
        (case pop data0 ch of
           Inl f \<Rightarrow> Inl f
         | Inr (ok, data, ch') \<Rightarrow>
             (case (if ok then on_item data l else on_empty l) of
                (es, l') \<Rightarrow> gated_loop rs data0 (l', ch', tr @ es))))"









subsection \<open>The producer loop\<close>











subsection \<open>The backoff ladder in closed form\<close>

text \<open>
  The counters after \<open>j\<close> consecutive failed polls that follow a successful one
  (or the start), and the events of the \<open>k\<close>-th such poll.  After the poll
  number 100000 the counter of failed polls restarts at 10000, so a sleep comes
  every 90000 polls.
\<close>

definition idle_locals :: "size_t \<Rightarrow> nat \<Rightarrow> locals" where
  "idle_locals p j =
     (if j < 100000
      then \<lparr>processed_count = p, empty_count = of_nat j, yield_count = 0, sleep_count = 0\<rparr>
      else \<lparr>processed_count = p,
            empty_count = of_nat (10000 + (j - 100000) mod 90000),
            yield_count = of_nat ((j - 100000) div 90000 + 1),
            sleep_count = of_nat (min ((j - 100000) div 90000 + 1) 4)\<rparr>)"

definition sleep_of :: "nat \<Rightarrow> 64 word" where
  "sleep_of i = (if i = 0 then 10 else if i = 1 then 20 else if i = 2 then 40
                 else if i = 3 then 80 else 100)"

definition ladder_action :: "nat \<Rightarrow> action" where
  "ladder_action k =
     (if k < 10000 then Busy_spin
      else if k < 100000 then Yield
      else if (k - 100000) mod 90000 = 0 then Sleep (sleep_of ((k - 100000) div 90000))
      else Yield)"

definition ladder_events :: "nat \<Rightarrow> event list" where
  "ladder_events k =
     (if 100000 \<le> k \<and> (k - 100000) mod 90000 = 0
         \<and> (of_nat ((k - 100000) div 90000 + 1) :: size_t) mod 1000 = 0
      then [Log ''Queue empty, yielding'' False] else [])
     @ [Backoff (ladder_action k)]"

text \<open>
  The actions of the consumer in \<open>n\<close> iterations of the gated loop over a
  channel, started with the counters \<open>l\<close>.
\<close>

definition idle_run :: "locals \<Rightarrow> nat \<Rightarrow> MarketData \<Rightarrow> channel \<Rightarrow> action list" where
  "idle_run l n data0 ch =
     (case gated_loop (replicate n True) data0 (l, ch, []) of
        Inl f \<Rightarrow> []
      | Inr (l', ch', tr) \<Rightarrow> backoffs tr)"


section \<open>Example data\<close>

text \<open>
  Concrete inputs for the examples below: a payload with an empty symbol, a
  memory that holds an object with this payload at every address, the memory
  in which no object was constructed, the pool of ten slots at address 4096
  and the queues that the constructor builds over it, and the three records of
  the end-to-end scenario.
\<close>

definition blank :: MarketData where
  "blank = \<lparr>symbol = [], price = 0, volume = 0\<rparr>"

definition blank_memory :: memory where
  "blank_memory = (\<lambda>a. Some blank)"

definition raw_memory :: memory where
  "raw_memory = (\<lambda>a. None)"

definition pool_of_10 :: MemoryPool where
  "pool_of_10 = \<lparr>pool_storage = 4096,
      free_list = [4096, 4160, 4224, 4288, 4352, 4416, 4480, 4544, 4608, 4672],
      pool_size = 10\<rparr>"

definition queue_of_10 :: LockFreeQueue where
  "queue_of_10 = \<lparr>buffer = [4672, 4608, 4544, 4480, 4416, 4352, 4288, 4224, 4160, 4096],
      head = 0, tail = 0, capacity = 10\<rparr>"

definition aapl :: MarketData where
  "aapl = \<lparr>symbol = ''AAPL'', price = 150.25, volume = 1000\<rparr>"

definition goog :: MarketData where
  "goog = \<lparr>symbol = ''GOOG'', price = 2750.1, volume = 500\<rparr>"

definition msft :: MarketData where
  "msft = \<lparr>symbol = ''MSFT'', price = 300.75, volume = 800\<rparr>"

definition queue_of_3 :: LockFreeQueue where
  "queue_of_3 = \<lparr>buffer = [4672, 4608, 4544], head = 0, tail = 0, capacity = 3\<rparr>"







section \<open>Properties of the pool\<close>

text \<open>
  The block that the constructor obtained lies inside the address space, so the
  slot addresses do not wrap around: they are distinct and none of them is null.
\<close>

lemma unat_slot_addr:
  assumes "unat storage + n * 64 \<le> 2 ^ 64" and "i < n"
  shows "unat (slot_addr storage i) = unat storage + i * 64"
proof -
  have i64: "i * 64 < 2 ^ 64" using assms by simp
  have "unat (of_nat i * (64 :: 64 word)) = i * 64"
    using i64 by (simp add: unat_word_ariths unat_of_nat take_bit_nat_eq_self_iff)
  moreover have "unat storage + i * 64 < 2 ^ 64" using assms by simp
  ultimately show ?thesis
    by (simp add: slot_addr_def sizeof_MarketData_def unat_word_ariths take_bit_nat_eq_self_iff)
qed

lemma distinct_slots:
  assumes "unat storage + n * 64 \<le> 2 ^ 64"
  shows "distinct (map (slot_addr storage) [0..<n])"
proof -
  have "inj_on (slot_addr storage) {0..<n}"
  proof (rule inj_onI)
    fix i j assume i: "i \<in> {0..<n}" and j: "j \<in> {0..<n}"
      and eq: "slot_addr storage i = slot_addr storage j"
    have "unat (slot_addr storage i) = unat (slot_addr storage j)"
      by (simp only: eq)
    moreover have "unat (slot_addr storage i) = unat storage + i * 64"
      using i by (intro unat_slot_addr [OF assms]) simp
    moreover have "unat (slot_addr storage j) = unat storage + j * 64"
      using j by (intro unat_slot_addr [OF assms]) simp
    ultimately show "i = j" by linarith
  qed
  then show ?thesis by (simp add: distinct_map)
qed

lemma slots_not_null:
  assumes "unat storage + n * 64 \<le> 2 ^ 64" and "storage \<noteq> nullptr"
  shows "nullptr \<notin> set (map (slot_addr storage) [0..<n])"
proof
  assume "nullptr \<in> set (map (slot_addr storage) [0..<n])"
  then obtain i where i: "i < n" "slot_addr storage i = nullptr" by auto
  then have "unat storage + i * 64 = 0"
    using unat_slot_addr [OF assms(1), of i] by (simp add: nullptr_def)
  then have "storage = 0" by (simp add: unat_eq_0)
  with assms(2) show False by (simp add: nullptr_def)
qed

lemma MemoryPool_ctor_wf:
  assumes "MemoryPool_ctor storage sz = Inr p" and "unat storage + unat sz * 64 \<le> 2 ^ 64"
  shows "pool_wf p" and "length (free_list p) = unat sz"
  using assms distinct_slots [of storage "unat sz"] slots_not_null [of storage "unat sz"]
  by (auto simp: MemoryPool_ctor_def pool_wf_def split: if_splits)

lemma pool_inv_step:
  assumes "pool_inv S s" and "nullptr \<notin> S" and "disciplined (c # cs) s"
  shows "pool_inv S (pool_step c s)"
proof (cases s)
  case (Pair p held)
  show ?thesis
  proof (cases c)
    case Allocate
    show ?thesis
    proof (cases "free_list p = []")
      case True
      with assms Pair Allocate show ?thesis by (simp add: pool_inv_def allocate_def)
    next
      case False
      then have fl: "free_list p = butlast (free_list p) @ [last (free_list p)]" by simp
      have "last (free_list p) \<in> S" using assms(1) Pair False by (auto simp: pool_inv_def)
      then have "last (free_list p) \<noteq> nullptr" using assms(2) by auto
      moreover have "distinct (butlast (free_list p) @ [last (free_list p)] @ held)"
        using assms(1) Pair fl by (metis append.assoc fst_conv pool_inv_def snd_conv)
      moreover have "set (butlast (free_list p) @ [last (free_list p)] @ held) = S"
        using assms(1) Pair fl by (metis append.assoc fst_conv pool_inv_def snd_conv)
      ultimately show ?thesis using Pair Allocate False
        by (auto simp: pool_inv_def allocate_def)
    qed
  next
    case (Deallocate ptr)
    show ?thesis
    proof (cases "ptr = nullptr")
      case True
      then have "ptr \<notin> set held" using assms(1,2) Pair by (auto simp: pool_inv_def)
      then show ?thesis using assms(1) Pair Deallocate True
        by (simp add: pool_inv_def deallocate_def remove1_idem)
    next
      case False
      then have mem: "ptr \<in> set held" using assms(3) Pair Deallocate by simp
      have d: "distinct (free_list p)" "distinct held" "set (free_list p) \<inter> set held = {}"
        using assms(1) Pair by (auto simp: pool_inv_def)
      have "set (remove1 ptr held) = set held - {ptr}" using d by simp
      then show ?thesis using assms(1) Pair Deallocate False mem d
        by (auto simp: pool_inv_def deallocate_def)
    qed
  qed
qed

lemma pool_inv_run:
  "pool_inv S s \<Longrightarrow> nullptr \<notin> S \<Longrightarrow> disciplined cs s \<Longrightarrow> pool_inv S (pool_run cs s)"
proof (induction cs arbitrary: s)
  case Nil
  then show ?case by simp
next
  case (Cons c cs)
  have "pool_inv S (pool_step c s)" using Cons.prems by (rule pool_inv_step)
  moreover have "disciplined cs (pool_step c s)" using Cons.prems(3) by (cases c) auto
  ultimately show ?case using Cons.IH Cons.prems(2) by simp
qed

text \<open>
  Claim C4 (pool slot uniqueness).  Take a pool of \<open>n\<close> slots whose block fits
  into the address space, and any sequence of \<open>allocate\<close> and \<open>deallocate\<close> calls
  in which every deallocated pointer is null or a slot held at that moment.
  After the calls the held results are pairwise different, every slot of the
  pool is in the free list or held, exactly once in all, and \<open>allocate\<close> returns
  the null pointer exactly when all \<open>n\<close> slots are held.
\<close>

theorem pool_slot_uniqueness:
  assumes ctor: "MemoryPool_ctor storage n = Inr p0"
    and fits: "unat storage + unat n * 64 \<le> 2 ^ 64"
    and disc: "disciplined calls (p0, [])"
    and run: "pool_run calls (p0, []) = (p, held)"
  shows "distinct held
       \<and> distinct (free_list p @ held)
       \<and> set (free_list p @ held) = slot_addr storage ` {0..<unat n}
       \<and> (fst (allocate p) = nullptr \<longleftrightarrow> length held = unat n)"
proof -
  let ?S = "slot_addr storage ` {0..<unat n}"
  have fl0: "free_list p0 = map (slot_addr storage) [0..<unat n]" and nz: "storage \<noteq> nullptr"
    using ctor by (auto simp: MemoryPool_ctor_def split: if_splits)
  have null: "nullptr \<notin> ?S" using slots_not_null [OF fits nz] by simp
  have "pool_inv ?S (p0, [])"
    using distinct_slots [OF fits] fl0 by (simp add: pool_inv_def)
  then have inv: "pool_inv ?S (p, held)"
    using pool_inv_run [OF _ null disc] run by simp
  then have d: "distinct (free_list p @ held)" and s: "set (free_list p @ held) = ?S"
    by (simp_all add: pool_inv_def)
  have "card ?S = unat n"
    using distinct_slots [OF fits]
    by (metis distinct_card length_map length_upt diff_zero set_map set_upt)
  then have len: "length (free_list p) + length held = unat n"
    using d s by (metis distinct_card length_append)
  have "fst (allocate p) = nullptr \<longleftrightarrow> free_list p = []"
  proof (cases "free_list p = []")
    case True
    then show ?thesis by (simp add: allocate_def)
  next
    case False
    then have "last (free_list p) \<in> ?S" using s by (metis UnCI last_in_set set_append)
    then have "last (free_list p) \<noteq> nullptr" using null by metis
    then show ?thesis using False by (simp add: allocate_def)
  qed
  also have "\<dots> \<longleftrightarrow> length held = unat n" using len by auto
  finally show ?thesis using d s by simp
qed

theorem pool_slot_uniqueness_witness:
  "MemoryPool_ctor 4096 3 = Inr \<lparr>pool_storage = 4096, free_list = [4096, 4160, 4224], pool_size = 3\<rparr>
   \<and> unat (4096 :: addr) + unat (3 :: size_t) * 64 \<le> 2 ^ 64
   \<and> disciplined [Allocate, Allocate, Deallocate 4224, Allocate, Allocate, Allocate]
        (\<lparr>pool_storage = 4096, free_list = [4096, 4160, 4224], pool_size = 3\<rparr>, [])
   \<and> pool_run [Allocate, Allocate, Deallocate 4224, Allocate, Allocate, Allocate]
        (\<lparr>pool_storage = 4096, free_list = [4096, 4160, 4224], pool_size = 3\<rparr>, [])
       = (\<lparr>pool_storage = 4096, free_list = [], pool_size = 3\<rparr>, [4160, 4224, 4096])
   \<and> distinct [4160, 4224, 4096 :: addr]
   \<and> set ([] @ [4160, 4224, 4096 :: addr]) = slot_addr 4096 ` {0..<unat (3 :: size_t)}
   \<and> fst (allocate \<lparr>pool_storage = 4096, free_list = [], pool_size = 3\<rparr>) = nullptr"
proof -
  let ?p0 = "\<lparr>pool_storage = 4096, free_list = [4096, 4160, 4224], pool_size = 3\<rparr>"
  let ?cs = "[Allocate, Allocate, Deallocate 4224, Allocate, Allocate, Allocate]"
  have h1: "MemoryPool_ctor 4096 3 = Inr ?p0"
    by (simp add: MemoryPool_ctor_def nullptr_def slot_addr_def sizeof_MarketData_def upt_rec)
  have h2: "unat (4096 :: addr) + unat (3 :: size_t) * 64 \<le> 2 ^ 64"
    by simp
  have h3: "disciplined ?cs (?p0, [])"
    by (simp add: allocate_def deallocate_def nullptr_def)
  have h4: "pool_run ?cs (?p0, [])
      = (\<lparr>pool_storage = 4096, free_list = [], pool_size = 3\<rparr>, [4160, 4224, 4096])"
    by (simp add: allocate_def deallocate_def nullptr_def)
  show ?thesis
    using pool_slot_uniqueness [OF h1 h2 h3 h4] h1 h2 h3 h4 by simp
qed

section \<open>Properties of the queue\<close>

lemma unat_succ_less:
  fixes i cap :: size_t
  assumes "i < cap"
  shows "unat (i + 1) = unat i + 1"
proof -
  have "unat i < unat cap" using assms by (simp add: word_less_nat_alt)
  moreover have "unat cap < 2 ^ 64" using unsigned_less [of cap, where ?'a = nat] by simp
  ultimately have "unat i + 1 < 2 ^ 64" by simp
  then show ?thesis by (simp add: unat_word_ariths take_bit_nat_eq_self_iff)
qed

lemma allocate_nonempty:
  "free_list pool \<noteq> [] \<Longrightarrow>
   allocate pool = (last (free_list pool), pool\<lparr>free_list := butlast (free_list pool)\<rparr>)"
  by (simp add: allocate_def)

lemma allocate_empty: "free_list pool = [] \<Longrightarrow> allocate pool = (nullptr, pool)"
  by (simp add: allocate_def)

lemma ctor_loop_enough:
  assumes "nullptr \<notin> set (free_list pool)"
    and "unat i \<le> unat cap" and "length buf = unat cap"
    and "r = unat cap - unat i" and "r \<le> length (free_list pool)"
  shows "ctor_loop i cap buf pool =
     (Inr (take (unat i) buf @ rev (drop (length (free_list pool) - r) (free_list pool))),
      pool\<lparr>free_list := take (length (free_list pool) - r) (free_list pool)\<rparr>)"
  using assms
proof (induction r arbitrary: i buf pool)
  case 0
  then have "\<not> i < cap" by (simp add: word_less_nat_alt)
  with 0 show ?case by (subst ctor_loop.simps) simp
next
  case (Suc r)
  let ?fl = "free_list pool"
  have less: "i < cap" using Suc.prems by (simp add: word_less_nat_alt)
  have ne: "?fl \<noteq> []" using Suc.prems by auto
  have notnull: "last ?fl \<noteq> nullptr" using Suc.prems(1) ne by (metis last_in_set)
  let ?pool' = "pool\<lparr>free_list := butlast ?fl\<rparr>"
  let ?buf' = "buf[unat i := last ?fl]"
  have ui: "unat (i + 1) = unat i + 1" using less by (rule unat_succ_less)
  have step: "ctor_loop i cap buf pool = ctor_loop (i + 1) cap ?buf' ?pool'"
    using less ne notnull by (subst ctor_loop.simps) (simp add: allocate_nonempty)
  have "ctor_loop (i + 1) cap ?buf' ?pool' =
     (Inr (take (unat (i + 1)) ?buf' @ rev (drop (length (free_list ?pool') - r) (free_list ?pool'))),
      ?pool'\<lparr>free_list := take (length (free_list ?pool') - r) (free_list ?pool')\<rparr>)"
  proof (rule Suc.IH)
    show "nullptr \<notin> set (free_list ?pool')" using Suc.prems(1) by (auto dest: in_set_butlastD)
    show "unat (i + 1) \<le> unat cap" using Suc.prems ui by simp
    show "length ?buf' = unat cap" using Suc.prems by simp
    show "r = unat cap - unat (i + 1)" using Suc.prems ui by simp
    show "r \<le> length (free_list ?pool')" using Suc.prems by simp
  qed
  moreover have "take (unat (i + 1)) ?buf' = take (unat i) buf @ [last ?fl]"
    using Suc.prems ui by (simp add: take_Suc_conv_app_nth)
  moreover have "length (free_list ?pool') - r = length ?fl - Suc r"
    using Suc.prems by simp
  moreover have "drop (length ?fl - Suc r) ?fl = drop (length ?fl - Suc r) (butlast ?fl) @ [last ?fl]"
  proof -
    have "?fl = butlast ?fl @ [last ?fl]" using ne by simp
    moreover have "length ?fl - Suc r \<le> length (butlast ?fl)" by simp
    ultimately show ?thesis by (metis drop_append diff_is_0_eq drop_0)
  qed
  moreover have "take (length ?fl - Suc r) (butlast ?fl) = take (length ?fl - Suc r) ?fl"
    using ne by (intro take_butlast) simp
  ultimately show ?case using step by simp
qed

lemma ctor_loop_exhausted:
  assumes "nullptr \<notin> set (free_list pool)"
    and "unat i \<le> unat cap"
    and "r = unat cap - unat i" and "length (free_list pool) < r"
  shows "ctor_loop i cap buf pool =
     (Inl (Runtime_error ''Memory pool exhausted''), pool\<lparr>free_list := []\<rparr>)"
  using assms
proof (induction "length (free_list pool)" arbitrary: i buf pool r)
  case 0
  then have less: "i < cap" by (simp add: word_less_nat_alt)
  have "free_list pool = []" using 0 by simp
  then show ?case using less by (subst ctor_loop.simps) (simp add: allocate_empty)
next
  case (Suc k)
  let ?fl = "free_list pool"
  have less: "i < cap" using Suc.prems by (simp add: word_less_nat_alt)
  have ne: "?fl \<noteq> []" using Suc.hyps(2) by auto
  have notnull: "last ?fl \<noteq> nullptr" using Suc.prems(1) ne by (metis last_in_set)
  let ?pool' = "pool\<lparr>free_list := butlast ?fl\<rparr>"
  let ?buf' = "buf[unat i := last ?fl]"
  have ui: "unat (i + 1) = unat i + 1" using less by (rule unat_succ_less)
  have step: "ctor_loop i cap buf pool = ctor_loop (i + 1) cap ?buf' ?pool'"
    using less ne notnull by (subst ctor_loop.simps) (simp add: allocate_nonempty)
  have "ctor_loop (i + 1) cap ?buf' ?pool' =
     (Inl (Runtime_error ''Memory pool exhausted''), ?pool'\<lparr>free_list := []\<rparr>)"
  proof (rule Suc.hyps(1))
    show "k = length (free_list ?pool')" using Suc.hyps(2) by simp
    show "nullptr \<notin> set (free_list ?pool')" using Suc.prems(1) by (auto dest: in_set_butlastD)
    show "unat (i + 1) \<le> unat cap" using Suc.prems ui by simp
    show "r - 1 = unat cap - unat (i + 1)" using Suc.prems ui by simp
    show "length (free_list ?pool') < r - 1" using Suc.prems Suc.hyps(2) by simp
  qed
  then show ?case using step by simp
qed

lemma queue_wf_nat:
  assumes "queue_wf q"
  shows "unat (head q) < unat (capacity q)" "unat (tail q) < unat (capacity q)"
    "capacity q \<noteq> 0" "0 < unat (capacity q)"
proof -
  show h: "unat (head q) < unat (capacity q)" using assms by (simp add: queue_wf_def word_less_nat_alt)
  show "unat (tail q) < unat (capacity q)" using assms by (simp add: queue_wf_def word_less_nat_alt)
  from h show "0 < unat (capacity q)" by simp
  then show "capacity q \<noteq> 0" by (simp add: unat_gt_0)
qed

lemma unat_next:
  fixes i c :: size_t
  assumes "i < c"
  shows "unat ((i + 1) mod c) = (if unat i + 1 = unat c then 0 else unat i + 1)"
proof -
  have "unat i < unat c" using assms by (simp add: word_less_nat_alt)
  then show ?thesis using unat_succ_less [OF assms] by (simp add: unat_mod)
qed

lemma next_less:
  fixes i c :: size_t
  assumes "i < c"
  shows "(i + 1) mod c < c"
proof -
  have "unat i < unat c" using assms by (simp add: word_less_nat_alt)
  then show ?thesis using unat_next [OF assms] by (simp add: word_less_nat_alt)
qed

lemma ring_count_nat:
  fixes h t c :: nat
  assumes "h < c" "t < c"
  shows "(t + c - h) mod c = (if h \<le> t then t - h else t + c - h)"
proof (cases "h \<le> t")
  case True
  then obtain d where d: "t = h + d" using le_Suc_ex by blast
  then have "t + c - h = d + c" by simp
  moreover have "d < c" using d assms by simp
  ultimately show ?thesis using True d by simp
next
  case False
  then have "t + c - h < c" using assms by simp
  then show ?thesis using False by simp
qed

lemma q_count_cases:
  assumes "queue_wf q"
  shows "q_count q = (if unat (head q) \<le> unat (tail q) then unat (tail q) - unat (head q)
                      else unat (tail q) + unat (capacity q) - unat (head q))"
  unfolding q_count_def using queue_wf_nat [OF assms] by (intro ring_count_nat)

lemma q_count_less: "queue_wf q \<Longrightarrow> q_count q < unat (capacity q)"
  using queue_wf_nat [of q] by (simp add: q_count_def)

lemma q_count_0_iff: "queue_wf q \<Longrightarrow> q_count q = 0 \<longleftrightarrow> head q = tail q"
  using queue_wf_nat [of q] by (auto simp: q_count_cases word_unat_eq_iff)

text \<open>The index of the \<open>k\<close>-th item counted from \<open>head\<close>.\<close>

lemma ring_index_tail:
  assumes "queue_wf q"
  shows "(unat (head q) + q_count q) mod unat (capacity q) = unat (tail q)"
  using queue_wf_nat [OF assms] by (auto simp: q_count_cases [OF assms] mod_if)

lemma ring_index_inj:
  assumes "h < c" "j < c" "k < c" "(h + j) mod c = (h + k) mod (c :: nat)"
  shows "j = k"
  using assms by (auto simp: mod_if split: if_splits)

lemma full_iff:
  assumes "queue_wf q"
  shows "(tail q + 1) mod capacity q = head q \<longleftrightarrow> q_count q = unat (capacity q) - 1"
proof -
  have "(tail q + 1) mod capacity q = head q
      \<longleftrightarrow> unat ((tail q + 1) mod capacity q) = unat (head q)"
    by (simp add: word_unat_eq_iff)
  also have "\<dots> \<longleftrightarrow> q_count q = unat (capacity q) - 1"
    using queue_wf_nat [OF assms] assms
    by (auto simp: unat_next queue_wf_def q_count_cases [OF assms])
  finally show ?thesis .
qed

lemma ring_count_push:
  fixes h t c :: nat
  assumes "h < c" "t < c" "(t + c - h) mod c < c - 1" "t' = (if t + 1 = c then 0 else t + 1)"
  shows "(t' + c - h) mod c = (t + c - h) mod c + 1"
proof -
  have t': "t' < c" using assms by simp
  have A: "(t' + c - h) mod c = (if h \<le> t' then t' - h else t' + c - h)"
    using assms(1) t' by (rule ring_count_nat)
  have B: "(t + c - h) mod c = (if h \<le> t then t - h else t + c - h)"
    using assms(1,2) by (rule ring_count_nat)
  have "(if h \<le> t' then t' - h else t' + c - h) = (if h \<le> t then t - h else t + c - h) + 1"
    using assms(1,2,4) assms(3) [unfolded B] by (simp split: if_splits; arith)
  then show ?thesis unfolding A B .
qed

lemma ring_count_pop:
  fixes h t c :: nat
  assumes "h < c" "t < c" "0 < (t + c - h) mod c" "h' = (if h + 1 = c then 0 else h + 1)"
  shows "(t + c - h') mod c = (t + c - h) mod c - 1"
proof -
  have h': "h' < c" using assms by simp
  have A: "(t + c - h') mod c = (if h' \<le> t then t - h' else t + c - h')"
    using h' assms(2) by (rule ring_count_nat)
  have B: "(t + c - h) mod c = (if h \<le> t then t - h else t + c - h)"
    using assms(1,2) by (rule ring_count_nat)
  have "(if h' \<le> t then t - h' else t + c - h') = (if h \<le> t then t - h else t + c - h) - 1"
    using assms(1,2,4) assms(3) [unfolded B] by (simp split: if_splits; arith)
  then show ?thesis unfolding A B .
qed

lemma ring_shift:
  fixes h c k :: nat
  shows "((if h + 1 = c then 0 else h + 1) + k) mod c = (h + Suc k) mod c"
proof (cases "h + 1 = c")
  case True
  then have "h + Suc k = c + k" by simp
  moreover have "(c + k) mod c = k mod c" by simp
  ultimately have "(h + Suc k) mod c = k mod c" by (simp only:)
  moreover have "((if h + 1 = c then 0 else h + 1) + k) mod c = k mod c"
    using True by simp
  ultimately show ?thesis by (simp only:)
next
  case False
  then show ?thesis by simp
qed

lemma push_full:
  assumes "queue_wf q" and "q_count q = unat (capacity q) - 1"
  shows "push x (q, mem) = Inr (False, (q, mem))"
  using assms queue_wf_nat(3) [OF assms(1)] full_iff [OF assms(1)]
  by (simp add: push_def Let_def)

lemma constructed_nth:
  "constructed mem slots \<Longrightarrow> i < length slots \<Longrightarrow> \<exists>y. mem (slots ! i) = Some y"
  by (simp add: constructed_def list_all_length)

lemma constructed_upd:
  "constructed mem slots \<Longrightarrow> constructed (mem(a := Some x)) slots"
  by (simp add: constructed_def list_all_iff)


lemma push_ok:
  assumes wf: "queue_wf q" and room: "q_count q < unat (capacity q) - 1"
    and obj: "mem (buffer q ! unat (tail q)) = Some y"
  shows "push x (q, mem) = Inr (True, (q\<lparr>tail := (tail q + 1) mod capacity q\<rparr>,
                                      mem(buffer q ! unat (tail q) := Some x)))"
proof -
  note n = queue_wf_nat [OF wf]
  have notfull: "(tail q + 1) mod capacity q \<noteq> head q"
    using full_iff [OF wf] room by simp
  have inb: "unat (tail q) < length (buffer q)" using wf n by (simp add: queue_wf_def)
  then have "buffer q ! unat (tail q) \<in> set (buffer q)" by simp
  then have nn: "buffer q ! unat (tail q) \<noteq> nullptr" using wf by (auto simp: queue_wf_def)
  show ?thesis using n(3) notfull inb nn obj by (simp add: push_def Let_def)
qed

lemma push_state:
  fixes q :: LockFreeQueue and mem :: memory and x :: MarketData
  assumes wf: "queue_wf q" and room: "q_count q < unat (capacity q) - 1"
  defines "q' \<equiv> q\<lparr>tail := (tail q + 1) mod capacity q\<rparr>"
    and "mem' \<equiv> mem(buffer q ! unat (tail q) := Some x)"
  shows "queue_wf q'"
    and "q_count q' = q_count q + 1"
    and "q_items (q', mem') = q_items (q, mem) @ [Some x]"
proof -
  note n = queue_wf_nat [OF wf]
  let ?h = "unat (head q)" and ?t = "unat (tail q)" and ?c = "unat (capacity q)"
  have tl: "tail q < capacity q" using wf by (simp add: queue_wf_def)
  have notfull: "(tail q + 1) mod capacity q \<noteq> head q"
    using full_iff [OF wf] room by simp
  have inb: "?t < length (buffer q)" using wf n by (simp add: queue_wf_def)
  then have "buffer q ! ?t \<in> set (buffer q)" by simp
  then have nn: "buffer q ! ?t \<noteq> nullptr" using wf by (auto simp: queue_wf_def)
  show wf': "queue_wf q'"
    using wf next_less [OF tl] by (simp add: queue_wf_def q'_def)
  have t': "unat (tail q') = (if ?t + 1 = ?c then 0 else ?t + 1)"
    using unat_next [OF tl] by (simp add: q'_def)
  have hc: "head q' = head q" "capacity q' = capacity q" "buffer q' = buffer q"
    by (simp_all add: q'_def)
  show cnt: "q_count q' = q_count q + 1"
  proof -
    have "(?t + ?c - ?h) mod ?c < ?c - 1" using room by (simp only: q_count_def)
    then have "(unat (tail q') + ?c - ?h) mod ?c = (?t + ?c - ?h) mod ?c + 1"
      using n(1) n(2) t' by (intro ring_count_push)
    then show ?thesis by (simp only: q_count_def hc)
  qed
  have idx: "(?h + q_count q) mod ?c = ?t" using ring_index_tail [OF wf] .
  have old: "\<forall>k < q_count q. mem' (buffer q ! ((?h + k) mod ?c)) = mem (buffer q ! ((?h + k) mod ?c))"
  proof (intro allI impI)
    fix k assume k: "k < q_count q"
    have "(?h + k) mod ?c \<noteq> ?t"
    proof
      assume "(?h + k) mod ?c = ?t"
      then have "(?h + k) mod ?c = (?h + q_count q) mod ?c" using idx by simp
      then have "k = q_count q"
        using ring_index_inj [of ?h ?c k "q_count q"] n k q_count_less [OF wf] by simp
      with k show False by simp
    qed
    moreover have "(?h + k) mod ?c < length (buffer q)" using wf n by (simp add: queue_wf_def)
    moreover have "distinct (buffer q)" using wf by (simp add: queue_wf_def)
    ultimately have "buffer q ! ((?h + k) mod ?c) \<noteq> buffer q ! ?t"
      using inb by (simp add: nth_eq_iff_index_eq)
    then show "mem' (buffer q ! ((?h + k) mod ?c)) = mem (buffer q ! ((?h + k) mod ?c))"
      by (simp add: mem'_def)
  qed
  have new: "mem' (buffer q ! ((?h + q_count q) mod ?c)) = Some x"
    using idx by (simp add: mem'_def)
  show "q_items (q', mem') = q_items (q, mem) @ [Some x]"
    using old new by (simp add: q_items_def cnt hc)
qed


lemma pop_ok:
  fixes q :: LockFreeQueue and mem :: memory
  assumes wf: "queue_wf q" and some: "0 < q_count q"
  defines "q' \<equiv> q\<lparr>head := (head q + 1) mod capacity q\<rparr>"
  shows "pop item (q, mem) =
       (case hd (q_items (q, mem)) of
          None \<Rightarrow> Inl Unconstructed_object
        | Some y \<Rightarrow> Inr (True, y, (q', mem)))"
    and "queue_wf q'"
    and "q_count q' = q_count q - 1"
    and "q_items (q', mem) = tl (q_items (q, mem))"
proof -
  note n = queue_wf_nat [OF wf]
  let ?h = "unat (head q)" and ?t = "unat (tail q)" and ?c = "unat (capacity q)"
  have hl: "head q < capacity q" using wf by (simp add: queue_wf_def)
  have ne: "head q \<noteq> tail q" using q_count_0_iff [OF wf] some by simp
  have inb: "?h < length (buffer q)" using wf n by (simp add: queue_wf_def)
  then have "buffer q ! ?h \<in> set (buffer q)" by simp
  then have nn: "buffer q ! ?h \<noteq> nullptr" using wf by (auto simp: queue_wf_def)
  have hd: "hd (q_items (q, mem)) = mem (buffer q ! ?h)"
    using some n by (simp add: q_items_def hd_map upt_conv_Cons)
  show "pop item (q, mem) =
       (case hd (q_items (q, mem)) of
          None \<Rightarrow> Inl Unconstructed_object
        | Some y \<Rightarrow> Inr (True, y, (q', mem)))"
    using ne inb nn n(3) hd by (simp add: pop_def q'_def Let_def split: option.splits)
  show wf': "queue_wf q'"
    using wf next_less [OF hl] by (simp add: queue_wf_def q'_def)
  have h': "unat (head q') = (if ?h + 1 = ?c then 0 else ?h + 1)"
    using unat_next [OF hl] by (simp add: q'_def)
  have tc: "tail q' = tail q" "capacity q' = capacity q" "buffer q' = buffer q"
    by (simp_all add: q'_def)
  show cnt: "q_count q' = q_count q - 1"
  proof -
    have "0 < (?t + ?c - ?h) mod ?c" using some by (simp only: q_count_def)
    then have "(?t + ?c - unat (head q')) mod ?c = (?t + ?c - ?h) mod ?c - 1"
      using n(1) n(2) h' by (intro ring_count_pop)
    then show ?thesis by (simp only: q_count_def tc)
  qed
  have shift: "(unat (head q') + k) mod ?c = (?h + Suc k) mod ?c" for k
    unfolding h' by (rule ring_shift)
  have "q_items (q, mem) = mem (buffer q ! ?h) # map (\<lambda>k. mem (buffer q ! ((?h + Suc k) mod ?c))) [0..<q_count q - 1]"
  proof -
    have "[0..<q_count q] = 0 # map Suc [0..<q_count q - 1]"
      using some by (metis Suc_diff_1 map_Suc_upt upt_conv_Cons)
    then show ?thesis using n by (simp add: q_items_def comp_def)
  qed
  then show "q_items (q', mem) = tl (q_items (q, mem))"
    by (simp add: q_items_def cnt tc shift)
qed


lemma vector_ctor_Inr:
  "vector_ctor granted cap = Inr buf0 \<longleftrightarrow>
     unat cap \<le> vector_max_size \<and> (cap = 0 \<or> granted) \<and> buf0 = replicate (unat cap) nullptr"
  by (auto simp: vector_ctor_def)

lemma LockFreeQueue_ctor_vector:
  assumes "vector_ctor granted cap = Inl e"
  shows "LockFreeQueue_ctor granted cap pool = (Inl e, pool)"
  using assms by (simp add: LockFreeQueue_ctor_def)

lemma LockFreeQueue_ctor_enough:
  assumes "pool_wf pool" and "unat cap \<le> length (free_list pool)"
    and "unat cap \<le> vector_max_size" and "cap = 0 \<or> granted"
  shows "LockFreeQueue_ctor granted cap pool =
     (Inr \<lparr>buffer = rev (drop (length (free_list pool) - unat cap) (free_list pool)),
           head = 0, tail = 0, capacity = cap\<rparr>,
      pool\<lparr>free_list := take (length (free_list pool) - unat cap) (free_list pool)\<rparr>)"
proof -
  have v: "vector_ctor granted cap = Inr (replicate (unat cap) nullptr)"
    using assms(3,4) by (simp add: vector_ctor_Inr)
  have "ctor_loop 0 cap (replicate (unat cap) nullptr) pool =
     (Inr (take (unat (0 :: size_t)) (replicate (unat cap) nullptr)
           @ rev (drop (length (free_list pool) - unat cap) (free_list pool))),
      pool\<lparr>free_list := take (length (free_list pool) - unat cap) (free_list pool)\<rparr>)"
    using assms(1,2) by (intro ctor_loop_enough) (simp_all add: pool_wf_def)
  then show ?thesis by (simp add: LockFreeQueue_ctor_def v)
qed

lemma LockFreeQueue_ctor_exhausted:
  assumes "pool_wf pool" and "length (free_list pool) < unat cap"
    and "unat cap \<le> vector_max_size" and "cap = 0 \<or> granted"
  shows "LockFreeQueue_ctor granted cap pool =
     (Inl (Runtime_error ''Memory pool exhausted''), pool\<lparr>free_list := []\<rparr>)"
proof -
  have v: "vector_ctor granted cap = Inr (replicate (unat cap) nullptr)"
    using assms(3,4) by (simp add: vector_ctor_Inr)
  have "ctor_loop 0 cap (replicate (unat cap) nullptr) pool =
     (Inl (Runtime_error ''Memory pool exhausted''), pool\<lparr>free_list := []\<rparr>)"
    using assms(1,2) by (intro ctor_loop_exhausted [where r = "unat cap"]) (simp_all add: pool_wf_def)
  then show ?thesis by (simp add: LockFreeQueue_ctor_def v)
qed

lemma LockFreeQueue_ctor_Inr:
  assumes "pool_wf pool" and "LockFreeQueue_ctor granted cap pool = (Inr q, pool')"
  shows "unat cap \<le> length (free_list pool)"
    and "q = \<lparr>buffer = rev (drop (length (free_list pool) - unat cap) (free_list pool)),
           head = 0, tail = 0, capacity = cap\<rparr>"
    and "pool' = pool\<lparr>free_list := take (length (free_list pool) - unat cap) (free_list pool)\<rparr>"
    and "unat cap \<le> vector_max_size" and "cap = 0 \<or> granted"
proof -
  have v: "unat cap \<le> vector_max_size \<and> (cap = 0 \<or> granted)"
  proof (cases "vector_ctor granted cap")
    case (Inl e)
    from LockFreeQueue_ctor_vector [OF this, of pool] assms(2) show ?thesis by simp
  next
    case (Inr buf0)
    then show ?thesis by (simp add: vector_ctor_Inr)
  qed
  then show m: "unat cap \<le> vector_max_size" and g: "cap = 0 \<or> granted" by simp_all
  show le: "unat cap \<le> length (free_list pool)"
  proof (rule ccontr)
    assume "\<not> unat cap \<le> length (free_list pool)"
    then have "length (free_list pool) < unat cap" by simp
    from LockFreeQueue_ctor_exhausted [OF assms(1) this m g] assms(2) show False by simp
  qed
  from LockFreeQueue_ctor_enough [OF assms(1) le m g] assms(2)
  show "q = \<lparr>buffer = rev (drop (length (free_list pool) - unat cap) (free_list pool)),
           head = 0, tail = 0, capacity = cap\<rparr>"
    and "pool' = pool\<lparr>free_list := take (length (free_list pool) - unat cap) (free_list pool)\<rparr>"
    by simp_all
qed

lemma LockFreeQueue_ctor_wf:
  assumes "pool_wf pool" and "LockFreeQueue_ctor granted cap pool = (Inr q, pool')" and "cap \<noteq> 0"
  shows "queue_wf q" and "q_count q = 0" and "capacity q = cap" and "head q = tail q"
proof -
  note c = LockFreeQueue_ctor_Inr [OF assms(1,2)]
  have "0 < cap" using assms(3) by (simp add: word_greater_zero_iff)
  moreover have "distinct (drop (length (free_list pool) - unat cap) (free_list pool))"
    using assms(1) by (simp add: pool_wf_def)
  moreover have "nullptr \<notin> set (drop (length (free_list pool) - unat cap) (free_list pool))"
    using assms(1) by (auto simp: pool_wf_def dest: in_set_dropD)
  ultimately show "queue_wf q" using c(1) by (simp add: c(2) queue_wf_def)
  show "q_count q = 0" by (simp add: c(2) q_count_def)
  show "capacity q = cap" by (simp add: c(2))
  show "head q = tail q" by (simp add: c(2))
qed


lemma push_all_room:
  assumes "queue_wf q" and "q_count q + length xs \<le> unat (capacity q) - 1"
    and "constructed mem (buffer q)"
  shows "\<exists>q' mem'. push_all xs (q, mem) = Inr (replicate (length xs) True, (q', mem'))
     \<and> queue_wf q' \<and> capacity q' = capacity q \<and> q_count q' = q_count q + length xs
     \<and> buffer q' = buffer q \<and> constructed mem' (buffer q')"
  using assms
proof (induction xs arbitrary: q mem)
  case Nil
  then show ?case by simp
next
  case (Cons x xs)
  let ?q1 = "q\<lparr>tail := (tail q + 1) mod capacity q\<rparr>"
  let ?m1 = "mem(buffer q ! unat (tail q) := Some x)"
  have room: "q_count q < unat (capacity q) - 1" using Cons.prems(2) by simp
  have "unat (tail q) < length (buffer q)"
    using Cons.prems(1) queue_wf_nat(2) [OF Cons.prems(1)] by (simp add: queue_wf_def)
  from constructed_nth [OF Cons.prems(3) this] obtain y where
    obj: "mem (buffer q ! unat (tail q)) = Some y" by blast
  note p = push_ok [where q = q and mem = mem and x = x, OF Cons.prems(1) room obj]
    push_state [OF Cons.prems(1) room]
  have "q_count ?q1 + length xs \<le> unat (capacity ?q1) - 1"
    using Cons.prems(2) p(3) by simp
  moreover have "constructed ?m1 (buffer ?q1)"
    using constructed_upd [OF Cons.prems(3)] by simp
  ultimately obtain q' mem' where
    r: "push_all xs (?q1, ?m1) = Inr (replicate (length xs) True, (q', mem'))"
       "queue_wf q'" "capacity q' = capacity ?q1" "q_count q' = q_count ?q1 + length xs"
       "buffer q' = buffer ?q1" "constructed mem' (buffer q')"
    using Cons.IH [OF p(2), of ?m1] by blast
  have "push_all (x # xs) (q, mem) = Inr (replicate (length (x # xs)) True, (q', mem'))"
    using p(1) r(1) by simp
  then show ?case using r(2-6) p(3) by simp
qed








section \<open>Claims about the queue\<close>

lemma pool_of_10_ctor: "MemoryPool_ctor 4096 10 = Inr pool_of_10"
  by (simp add: MemoryPool_ctor_def pool_of_10_def nullptr_def slot_addr_def
      sizeof_MarketData_def upt_rec)

lemma pool_of_10_wf: "pool_wf pool_of_10"
  by (simp add: pool_wf_def pool_of_10_def nullptr_def)

lemma queue_of_10_ctor:
  "LockFreeQueue_ctor True 10 pool_of_10 = (Inr queue_of_10, pool_of_10\<lparr>free_list := []\<rparr>)"
  using LockFreeQueue_ctor_enough [OF pool_of_10_wf, of 10 True]
  by (simp add: pool_of_10_def queue_of_10_def vector_max_size_def)





text \<open>
  The capacity bound over slots that hold objects: a channel constructed with
  capacity \<open>C \<ge> 2\<close> accepts \<open>C - 1\<close> pushes; the next push returns false and
  changes neither the queue nor the memory; after one pop, which succeeds, a
  push succeeds again.
\<close>

lemma capacity_bound_constructed:
  assumes pool: "pool_wf pool"
    and ctor: "LockFreeQueue_ctor granted cap pool = (Inr q, pool')"
    and two: "2 \<le> unat cap"
    and len: "length items = unat cap - 1"
    and objects: "constructed mem (buffer q)"
  shows "\<exists>ch1. push_all items (q, mem) = Inr (replicate (unat cap - 1) True, ch1)
     \<and> push x ch1 = Inr (False, ch1)
     \<and> (\<exists>v ch2. pop out ch1 = Inr (True, v, ch2) \<and> (\<exists>ch3. push y ch2 = Inr (True, ch3)))"
proof -
  have nz: "cap \<noteq> 0" using two by auto
  note w = LockFreeQueue_ctor_wf [OF pool ctor nz]
  have "q_count q + length items \<le> unat (capacity q) - 1" using w len by simp
  from push_all_room [OF w(1) this objects] obtain q1 mem1 where
    r: "push_all items (q, mem) = Inr (replicate (length items) True, (q1, mem1))"
       "queue_wf q1" "capacity q1 = capacity q" "q_count q1 = q_count q + length items"
       "buffer q1 = buffer q" "constructed mem1 (buffer q1)"
    by blast
  note n = queue_wf_nat [OF r(2)]
  have blen: "length (buffer q1) = unat (capacity q1)" using r(2) by (simp add: queue_wf_def)
  have cnt: "q_count q1 = unat (capacity q1) - 1" using r w len by simp
  have full: "push x (q1, mem1) = Inr (False, (q1, mem1))"
    using r(2) cnt by (rule push_full)
  have some: "0 < q_count q1" using cnt r(3) w(3) two by simp
  let ?q2 = "q1\<lparr>head := (head q1 + 1) mod capacity q1\<rparr>"
  note p = pop_ok [OF r(2) some]
  have "hd (q_items (q1, mem1)) = mem1 (buffer q1 ! unat (head q1))"
    using some n by (simp add: q_items_def hd_map upt_conv_Cons)
  moreover from constructed_nth [OF r(6), of "unat (head q1)"] n(1) blen obtain v where
    "mem1 (buffer q1 ! unat (head q1)) = Some v" by auto
  ultimately have popped: "pop out (q1, mem1) = Inr (True, v, (?q2, mem1))"
    using p(1) [of out mem1] by simp
  have room: "q_count ?q2 < unat (capacity ?q2) - 1" using p(3) cnt some by simp
  have "unat (tail ?q2) < length (buffer ?q2)" using n(2) blen by simp
  from constructed_nth [of mem1 "buffer ?q2", OF _ this] r(6) obtain w where
    "mem1 (buffer ?q2 ! unat (tail ?q2)) = Some w" by auto
  note again = push_ok [where q = ?q2 and mem = mem1 and x = y, OF p(2) room this]
  show ?thesis
    using r(1) len full popped again by (intro exI [of _ "(q1, mem1)"]) auto
qed

text \<open>
  Claim C2 (capacity bound).  The first pushes into a constructed channel are
  to return true.  The slots of the channel are addresses in the array of
  bytes of the pool, in which no object was ever constructed, and the first
  push copy-assigns its record to the object at the first slot.  For the pool
  of size 10, the channel of capacity 10 over it and the record with the empty
  symbol, the push does not return true: its assignment is undefined.
\<close>

theorem push_into_raw_storage:
  "MemoryPool_ctor 4096 10 = Inr pool_of_10
   \<and> LockFreeQueue_ctor True 10 pool_of_10 = (Inr queue_of_10, pool_of_10\<lparr>free_list := []\<rparr>)
   \<and> push blank (queue_of_10, raw_memory) = Inl Unconstructed_object
   \<and> push_all (replicate 9 blank) (queue_of_10, raw_memory) = Inl Unconstructed_object"
proof -
  have "push blank (queue_of_10, raw_memory) = Inl Unconstructed_object"
    by (simp add: push_def queue_of_10_def nullptr_def raw_memory_def)
  moreover from this
  have "push_all (replicate 9 blank) (queue_of_10, raw_memory) = Inl Unconstructed_object"
    by (simp add: numeral_nat)
  ultimately show ?thesis using pool_of_10_ctor queue_of_10_ctor by simp
qed

text \<open>
  Claim C3 (pop on empty is a pure failure).  In every state with
  \<open>head = tail\<close>, \<open>pop\<close> returns false, leaves its reference parameter as it
  was, and leaves the queue object and the slot contents unchanged.
\<close>

theorem pop_empty_is_pure:
  assumes "head q = tail q"
  shows "pop out (q, mem) = Inr (False, out, (q, mem))"
  using assms by (simp add: pop_def Let_def)

theorem pop_empty_is_pure_witness:
  "head (queue_of_3\<lparr>head := 2, tail := 2\<rparr>) = tail (queue_of_3\<lparr>head := 2, tail := 2\<rparr>)
   \<and> pop aapl (queue_of_3\<lparr>head := 2, tail := 2\<rparr>,
               blank_memory(4672 := Some goog, 4608 := Some msft))
       = Inr (False, aapl,
              (queue_of_3\<lparr>head := 2, tail := 2\<rparr>,
               blank_memory(4672 := Some goog, 4608 := Some msft)))"
proof -
  have h: "head (queue_of_3\<lparr>head := 2, tail := 2\<rparr>) = tail (queue_of_3\<lparr>head := 2, tail := 2\<rparr>)"
    by simp
  from pop_empty_is_pure [OF h] h show ?thesis by simp
qed



text \<open>
  Claim C9, amended.  Over a pool with \<open>k\<close> free slots and a capacity above \<open>k\<close>
  for which the vector of slot pointers is built, the constructor throws the
  exhaustion error and leaves the free list empty: the \<open>k\<close> slots it had taken
  are not given back.  When the vector is not built, because the capacity is
  above its largest size or because its memory is not granted, the constructor
  throws before it has taken a slot, and the free list is as it was.
\<close>

theorem failed_ctor_drains_pool:
  assumes "pool_wf pool" and "length (free_list pool) = k" and "k < unat cap"
  shows "(unat cap \<le> vector_max_size \<and> granted \<longrightarrow>
            LockFreeQueue_ctor granted cap pool
              = (Inl (Runtime_error ''Memory pool exhausted''), pool\<lparr>free_list := []\<rparr>))
     \<and> (vector_max_size < unat cap \<longrightarrow>
            LockFreeQueue_ctor granted cap pool
              = (Inl (Length_error ''cannot create std::vector larger than max_size()''), pool))
     \<and> (unat cap \<le> vector_max_size \<and> \<not> granted \<longrightarrow>
            LockFreeQueue_ctor granted cap pool = (Inl Bad_alloc, pool))"
proof (intro conjI impI)
  assume "unat cap \<le> vector_max_size \<and> granted"
  then show "LockFreeQueue_ctor granted cap pool
      = (Inl (Runtime_error ''Memory pool exhausted''), pool\<lparr>free_list := []\<rparr>)"
    using assms LockFreeQueue_ctor_exhausted [of pool cap granted] by simp
next
  assume "vector_max_size < unat cap"
  then have "vector_ctor granted cap
      = Inl (Length_error ''cannot create std::vector larger than max_size()'')"
    by (simp add: vector_ctor_def)
  then show "LockFreeQueue_ctor granted cap pool
      = (Inl (Length_error ''cannot create std::vector larger than max_size()''), pool)"
    by (rule LockFreeQueue_ctor_vector)
next
  assume a: "unat cap \<le> vector_max_size \<and> \<not> granted"
  have "cap \<noteq> 0" using assms(3) by auto
  with a have "vector_ctor granted cap = Inl Bad_alloc"
    by (simp add: vector_ctor_def)
  then show "LockFreeQueue_ctor granted cap pool = (Inl Bad_alloc, pool)"
    by (rule LockFreeQueue_ctor_vector)
qed

theorem failed_ctor_drains_pool_witness:
  "pool_wf pool_of_10 \<and> length (free_list pool_of_10) = 10 \<and> 10 < unat (11 :: size_t)
   \<and> unat (11 :: size_t) \<le> vector_max_size
   \<and> LockFreeQueue_ctor True 11 pool_of_10
       = (Inl (Runtime_error ''Memory pool exhausted''), pool_of_10\<lparr>free_list := []\<rparr>)
   \<and> free_list (snd (LockFreeQueue_ctor True 11 pool_of_10)) \<noteq> free_list pool_of_10
   \<and> LockFreeQueue_ctor False 11 pool_of_10 = (Inl Bad_alloc, pool_of_10)"
proof -
  have h1: "pool_wf pool_of_10" by (rule pool_of_10_wf)
  have h2: "length (free_list pool_of_10) = 10" by (simp add: pool_of_10_def)
  have h3: "10 < unat (11 :: size_t)" by simp
  have h4: "unat (11 :: size_t) \<le> vector_max_size" by (simp add: vector_max_size_def)
  from failed_ctor_drains_pool [OF h1 h2 h3, of True] h4
  have a: "LockFreeQueue_ctor True 11 pool_of_10
       = (Inl (Runtime_error ''Memory pool exhausted''), pool_of_10\<lparr>free_list := []\<rparr>)"
    by simp
  from failed_ctor_drains_pool [OF h1 h2 h3, of False] h4
  have b: "LockFreeQueue_ctor False 11 pool_of_10 = (Inl Bad_alloc, pool_of_10)"
    by simp
  have c: "free_list (snd (LockFreeQueue_ctor True 11 pool_of_10)) \<noteq> free_list pool_of_10"
    using a by (simp add: pool_of_10_def)
  from h1 h2 h3 h4 a b c show ?thesis by simp
qed

text \<open>
  Claim C9 as stated fails: the pool of size 10 has 10 free slots and the
  capacity \<open>2^63\<close> is greater, but the constructor throws \<open>std::length_error\<close>
  when it builds its vector, not the exhaustion error, and it has checked out
  no slot: the free list still holds the 10 slots.
\<close>

theorem oversized_capacity_counterexample:
  "length (free_list pool_of_10) = 10
   \<and> 10 < unat (9223372036854775808 :: size_t)
   \<and> LockFreeQueue_ctor True 9223372036854775808 pool_of_10
       = (Inl (Length_error ''cannot create std::vector larger than max_size()''), pool_of_10)
   \<and> free_list pool_of_10 \<noteq> []"
  by (simp add: LockFreeQueue_ctor_def vector_ctor_def vector_max_size_def pool_of_10_def)




section \<open>Properties of the consumer loop\<close>

lemma unat_of_nat_small:
  "a < 2 ^ 64 \<Longrightarrow> unat (of_nat a :: 64 word) = a"
  by (simp add: unat_of_nat take_bit_nat_eq_self_iff)

lemma of_nat_less_numeral:
  assumes "a < 2 ^ 64" and "b < 2 ^ 64"
  shows "(of_nat a :: 64 word) < of_nat b \<longleftrightarrow> a < b"
  using assms by (simp add: word_less_nat_alt unat_of_nat_small)

lemma on_empty_spin:
  assumes "j + 1 < 10000"
  shows "on_empty \<lparr>processed_count = p, empty_count = of_nat j, yield_count = y, sleep_count = s\<rparr>
     = ([Backoff Busy_spin],
        \<lparr>processed_count = p, empty_count = of_nat (j + 1), yield_count = y, sleep_count = s\<rparr>)"
proof -
  have "(of_nat (j + 1) :: 64 word) < of_nat 10000"
    using assms by (subst of_nat_less_numeral) simp_all
  then have "(of_nat j + 1 :: 64 word) < 10000" by (simp add: add.commute)
  then show ?thesis by (simp add: on_empty_def Let_def)
qed

lemma on_empty_yield:
  assumes "10000 \<le> j + 1" and "j + 1 < 100000"
  shows "on_empty \<lparr>processed_count = p, empty_count = of_nat j, yield_count = y, sleep_count = s\<rparr>
     = ([Backoff Yield],
        \<lparr>processed_count = p, empty_count = of_nat (j + 1), yield_count = y, sleep_count = s\<rparr>)"
proof -
  have "(of_nat (j + 1) :: 64 word) < of_nat 100000"
    using assms by (subst of_nat_less_numeral) simp_all
  then have a: "(of_nat j + 1 :: 64 word) < 100000" by (simp add: add.commute)
  have "\<not> (of_nat (j + 1) :: 64 word) < of_nat 10000"
    using assms by (subst of_nat_less_numeral) simp_all
  then have b: "\<not> (of_nat j + 1 :: 64 word) < 10000" by (simp add: add.commute)
  show ?thesis using a b by (simp add: on_empty_def Let_def)
qed

lemma on_empty_sleep:
  assumes "j + 1 = 100000" and "i \<le> 4"
  shows "on_empty \<lparr>processed_count = p, empty_count = of_nat j, yield_count = y, sleep_count = of_nat i\<rparr>
     = ((if (y + 1) mod 1000 = 0 then [Log ''Queue empty, yielding'' False] else [])
          @ [Backoff (Sleep (sleep_of i))],
        \<lparr>processed_count = p, empty_count = 10000, yield_count = y + 1,
          sleep_count = of_nat (min (i + 1) 4)\<rparr>)"
proof -
  have e: "(of_nat j + 1 :: 64 word) = 100000"
  proof -
    have "(of_nat j + 1 :: 64 word) = of_nat (j + 1)" by simp
    also have "\<dots> = 100000" by (simp only: assms(1)) simp
    finally show ?thesis .
  qed
  consider "i = 0" | "i = 1" | "i = 2" | "i = 3" | "i = 4" using assms(2) by linarith
  then show ?thesis
  proof cases
    case 1 then show ?thesis by (simp add: on_empty_def Let_def e sleep_of_def)
  next
    case 2 then show ?thesis by (simp add: on_empty_def Let_def e sleep_of_def)
  next
    case 3 then show ?thesis by (simp add: on_empty_def Let_def e sleep_of_def)
  next
    case 4 then show ?thesis by (simp add: on_empty_def Let_def e sleep_of_def)
  next
    case 5 then show ?thesis by (simp add: on_empty_def Let_def e sleep_of_def)
  qed
qed

lemma sleep_of_min: "sleep_of (min i 4) = sleep_of i"
  by (simp add: sleep_of_def min_def)

lemma on_empty_idle:
  "on_empty (idle_locals p j) = (ladder_events (j + 1), idle_locals p (j + 1))"
proof -
  consider (spin) "j + 1 < 10000"
    | (yield) "10000 \<le> j + 1" "j + 1 < 100000"
    | (first) "j + 1 = 100000"
    | (later) "100000 \<le> j"
    by linarith
  then show ?thesis
  proof cases
    case spin
    then show ?thesis
      using on_empty_spin [OF spin, of p 0 0]
      by (simp add: idle_locals_def ladder_events_def ladder_action_def)
  next
    case yield
    then show ?thesis
      using on_empty_yield [OF yield, of p 0 0]
      by (simp add: idle_locals_def ladder_events_def ladder_action_def)
  next
    case first
    have "on_empty \<lparr>processed_count = p, empty_count = of_nat j, yield_count = 0,
              sleep_count = of_nat 0\<rparr>
        = ((if ((0 :: size_t) + 1) mod 1000 = 0 then [Log ''Queue empty, yielding'' False] else [])
             @ [Backoff (Sleep (sleep_of 0))],
           \<lparr>processed_count = p, empty_count = 10000, yield_count = 0 + 1,
             sleep_count = of_nat (min (0 + 1) 4)\<rparr>)"
      using first by (intro on_empty_sleep) simp_all
    moreover have "idle_locals p j = \<lparr>processed_count = p, empty_count = of_nat j,
        yield_count = 0, sleep_count = of_nat 0\<rparr>"
      using first by (simp add: idle_locals_def)
    moreover have "idle_locals p (j + 1) = \<lparr>processed_count = p, empty_count = 10000,
        yield_count = 0 + 1, sleep_count = of_nat (min (0 + 1) 4)\<rparr>"
      using first by (simp add: idle_locals_def)
    moreover have "ladder_events (j + 1) = [Backoff (Sleep (sleep_of 0))]"
      using first by (simp add: ladder_events_def ladder_action_def)
    ultimately show ?thesis by simp
  next
    case later
    define m where "m = j - 100000"
    define r where "r = m mod 90000"
    define q where "q = m div 90000"
    have j: "j = 100000 + m" using later by (simp add: m_def)
    have r: "r < 90000" by (simp add: r_def)
    have cur: "idle_locals p j = \<lparr>processed_count = p, empty_count = of_nat (10000 + r),
        yield_count = of_nat (q + 1), sleep_count = of_nat (min (q + 1) 4)\<rparr>"
      using later by (simp add: idle_locals_def m_def r_def q_def)
    show ?thesis
    proof (cases "r + 1 < 90000")
      case True
      have md: "(m + 1) mod 90000 = r + 1" "(m + 1) div 90000 = q"
        using True by (simp_all add: r_def q_def mod_Suc div_Suc)
      have nxt: "idle_locals p (j + 1) = \<lparr>processed_count = p,
          empty_count = of_nat (10000 + r + 1),
          yield_count = of_nat (q + 1), sleep_count = of_nat (min (q + 1) 4)\<rparr>"
        using md by (simp add: idle_locals_def j)
      have ev: "ladder_events (j + 1) = [Backoff Yield]"
        using md by (simp add: ladder_events_def ladder_action_def j)
      have "on_empty \<lparr>processed_count = p, empty_count = of_nat (10000 + r),
              yield_count = of_nat (q + 1), sleep_count = of_nat (min (q + 1) 4)\<rparr>
          = ([Backoff Yield],
             \<lparr>processed_count = p, empty_count = of_nat (10000 + r + 1),
               yield_count = of_nat (q + 1), sleep_count = of_nat (min (q + 1) 4)\<rparr>)"
        using True by (intro on_empty_yield) simp_all
      then show ?thesis by (simp only: cur nxt ev)
    next
      case False
      then have r1: "r + 1 = 90000" using r by simp
      have md: "(m + 1) mod 90000 = 0" "(m + 1) div 90000 = q + 1"
        using r1 by (simp_all add: r_def q_def mod_Suc div_Suc)
      have nxt: "idle_locals p (j + 1) = \<lparr>processed_count = p, empty_count = 10000,
          yield_count = of_nat (q + 1) + 1, sleep_count = of_nat (min (min (q + 1) 4 + 1) 4)\<rparr>"
      proof -
        have "min (min (q + 1) 4 + 1) 4 = min (q + 1 + 1) 4" by simp
        then show ?thesis using md by (simp add: idle_locals_def j)
      qed
      have "ladder_events (j + 1)
          = (if (of_nat (q + 1) + 1 :: size_t) mod 1000 = 0
             then [Log ''Queue empty, yielding'' False] else [])
            @ [Backoff (Sleep (sleep_of (q + 1)))]"
        using md by (simp add: ladder_events_def ladder_action_def j)
      then have ev: "ladder_events (j + 1)
          = (if (of_nat (q + 1) + 1 :: size_t) mod 1000 = 0
             then [Log ''Queue empty, yielding'' False] else [])
            @ [Backoff (Sleep (sleep_of (min (q + 1) 4)))]"
        by (simp only: sleep_of_min)
      have "on_empty \<lparr>processed_count = p, empty_count = of_nat (10000 + r),
              yield_count = of_nat (q + 1), sleep_count = of_nat (min (q + 1) 4)\<rparr>
          = ((if (of_nat (q + 1) + 1 :: size_t) mod 1000 = 0
              then [Log ''Queue empty, yielding'' False] else [])
               @ [Backoff (Sleep (sleep_of (min (q + 1) 4)))],
             \<lparr>processed_count = p, empty_count = 10000, yield_count = of_nat (q + 1) + 1,
               sleep_count = of_nat (min (min (q + 1) 4 + 1) 4)\<rparr>)"
        using r1 by (intro on_empty_sleep) simp_all
      then show ?thesis by (simp only: cur nxt ev)
    qed
  qed
qed

lemma gated_loop_idle:
  assumes "head (fst ch) = tail (fst ch)"
  shows "gated_loop (replicate n True) data0 (idle_locals p j, ch, tr)
     = Inr (idle_locals p (j + n), ch, tr @ concat (map ladder_events [j + 1..<j + n + 1]))"
proof (induction n arbitrary: j tr)
  case 0
  then show ?case by simp
next
  case (Suc n)
  obtain q mem where ch: "ch = (q, mem)" by (cases ch)
  have pop: "pop data0 ch = Inr (False, data0, ch)"
    using assms by (simp add: ch pop_def Let_def)
  have "gated_loop (replicate (Suc n) True) data0 (idle_locals p j, ch, tr)
      = gated_loop (replicate n True) data0 (idle_locals p (j + 1), ch, tr @ ladder_events (j + 1))"
    by (simp add: pop on_empty_idle)
  also have "\<dots> = Inr (idle_locals p (j + 1 + n), ch,
      (tr @ ladder_events (j + 1)) @ concat (map ladder_events [j + 1 + 1..<j + 1 + n + 1]))"
    by (rule Suc.IH)
  also have "(tr @ ladder_events (j + 1)) @ concat (map ladder_events [j + 1 + 1..<j + 1 + n + 1])
      = tr @ concat (map ladder_events [j + 1..<j + Suc n + 1])"
  proof -
    have "[j + 1..<j + Suc n + 1] = (j + 1) # [j + 1 + 1..<j + 1 + n + 1]"
      by (subst upt_rec) simp
    then show ?thesis by simp
  qed
  finally show ?case by simp
qed

lemma backoffs_append: "backoffs (xs @ ys) = backoffs xs @ backoffs ys"
  by (induction xs rule: backoffs.induct) simp_all

lemma backoffs_ladder_events: "backoffs (ladder_events k) = [ladder_action k]"
  by (simp add: ladder_events_def)

lemma backoffs_ladder: "backoffs (concat (map ladder_events ks)) = map ladder_action ks"
  by (induction ks) (simp_all add: backoffs_append backoffs_ladder_events)

lemma idle_locals_reset:
  assumes "empty_count l = 0" "yield_count l = 0" "sleep_count l = 0"
  shows "l = idle_locals (processed_count l) 0"
  using assms by (simp add: idle_locals_def)

lemma idle_run_eq:
  assumes "head (fst ch) = tail (fst ch)"
    and "empty_count l = 0" "yield_count l = 0" "sleep_count l = 0"
  shows "idle_run l n data0 ch = map ladder_action [1..<Suc n]"
proof -
  have l: "l = idle_locals (processed_count l) 0"
    using assms(2-4) by (rule idle_locals_reset)
  have "gated_loop (replicate n True) data0 (idle_locals (processed_count l) 0, ch, [])
      = Inr (idle_locals (processed_count l) (0 + n), ch,
             [] @ concat (map ladder_events [0 + 1..<0 + n + 1]))"
    using assms(1) by (rule gated_loop_idle)
  then have "gated_loop (replicate n True) data0 (l, ch, [])
      = Inr (idle_locals (processed_count l) n, ch, concat (map ladder_events [1..<Suc n]))"
    using l by simp
  then show ?thesis by (simp add: idle_run_def backoffs_ladder)
qed

lemma idle_run_nth:
  assumes "head (fst ch) = tail (fst ch)"
    and "empty_count l = 0" "yield_count l = 0" "sleep_count l = 0"
    and "1 \<le> k" and "k \<le> n"
  shows "idle_run l n data0 ch ! (k - 1) = ladder_action k"
proof -
  have "k - 1 < length [1..<Suc n]" using assms(5,6) by simp
  then have "map ladder_action [1..<Suc n] ! (k - 1) = ladder_action ([1..<Suc n] ! (k - 1))"
    by (rule nth_map)
  moreover have "[1..<Suc n] ! (k - 1) = k"
  proof -
    have "1 + (k - 1) < Suc n" using assms(5,6) by simp
    then have "[1..<Suc n] ! (k - 1) = 1 + (k - 1)" by (rule nth_upt)
    then show ?thesis using assms(5) by simp
  qed
  ultimately show ?thesis using idle_run_eq [OF assms(1-4)] by simp
qed

text \<open>
  Claim C5, amended.  The channel is empty and the counters are reset, as they
  are at the start and after every successful \<open>pop\<close>.  Then the \<open>k\<close>-th
  consecutive failed poll is a busy spin for \<open>k < 10000\<close>, a yield for
  \<open>10000 \<le> k < 100000\<close> and a sleep for \<open>k = 100000\<close>.  The sleep sets the
  counter of failed polls back to 10000, so after it the loop yields again and
  sleeps at every 90000th poll: at \<open>k = 100000 + 90000 * i\<close> it sleeps for
  10, 20, 40, 80 microseconds for \<open>i = 0, 1, 2, 3\<close> and for 100 microseconds from
  \<open>i = 4\<close> on.  A successful \<open>pop\<close> resets the three counters.
\<close>

theorem backoff_ladder:
  assumes empty: "head (fst ch) = tail (fst ch)"
    and reset: "empty_count l = 0 \<and> yield_count l = 0 \<and> sleep_count l = 0"
    and k: "1 \<le> k" "k \<le> n"
  shows "idle_run l n data0 ch ! (k - 1) =
       (if k < 10000 then Busy_spin
        else if k < 100000 then Yield
        else if (k - 100000) mod 90000 = 0 then Sleep (sleep_of ((k - 100000) div 90000))
        else Yield)
     \<and> sleep_of 0 = 10 \<and> sleep_of 1 = 20 \<and> sleep_of 2 = 40 \<and> sleep_of 3 = 80
     \<and> sleep_of (4 + i) = 100
     \<and> empty_count (snd (on_item d l0)) = 0 \<and> yield_count (snd (on_item d l0)) = 0
     \<and> sleep_count (snd (on_item d l0)) = 0"
proof -
  have "idle_run l n data0 ch ! (k - 1) = ladder_action k"
    using empty reset k by (intro idle_run_nth) simp_all
  then show ?thesis by (simp add: ladder_action_def sleep_of_def on_item_def)
qed

theorem backoff_ladder_witness:
  "head (fst (queue_of_10, blank_memory)) = tail (fst (queue_of_10, blank_memory))
   \<and> empty_count fresh_locals = 0 \<and> yield_count fresh_locals = 0 \<and> sleep_count fresh_locals = 0
   \<and> (1 :: nat) \<le> 280000 \<and> (280000 :: nat) \<le> 280000
   \<and> idle_run fresh_locals 280000 blank (queue_of_10, blank_memory) ! (280000 - 1) = Sleep 40"
proof -
  have h1: "head (fst (queue_of_10, blank_memory)) = tail (fst (queue_of_10, blank_memory))"
    by (simp add: queue_of_10_def)
  have h2: "empty_count fresh_locals = 0 \<and> yield_count fresh_locals = 0
      \<and> sleep_count fresh_locals = 0"
    by (simp add: fresh_locals_def)
  have h3: "(1 :: nat) \<le> 280000" and h4: "(280000 :: nat) \<le> 280000" by simp_all
  have "sleep_of ((280000 - 100000) div 90000) = 40" by (simp add: sleep_of_def)
  with backoff_ladder [OF h1 h2 h3 h4, of blank] h1 h2 show ?thesis by simp
qed

text \<open>
  Claim C5 as stated fails: the poll after the first sleep, the 100001st
  consecutive failed poll, yields and does not sleep.
\<close>

theorem sleep_beyond_threshold_counterexample:
  "idle_run fresh_locals 100001 blank (queue_of_10, blank_memory) ! 100000 = Yield"
proof -
  have "idle_run fresh_locals 100001 blank (queue_of_10, blank_memory) ! (100001 - 1)
      = ladder_action 100001"
    by (rule idle_run_nth) (simp_all add: queue_of_10_def fresh_locals_def)
  then show ?thesis by (simp add: ladder_action_def)
qed











section \<open>Properties of the two loop functions\<close>







end
